theory Spec2Isabelle
  imports Complex_Main "HOL-Library.Word"
begin

section \<open>Search query normalisation (package background)\<close>

text \<open>
  Go strings are byte sequences, as \<^typ>\<open>string\<close> is a list of 8-bit characters.
  \<open>strings.HasPrefix\<close> and \<open>strings.Contains\<close> of the Go standard library are
  written out as recursive functions, so that they evaluate on concrete queries.
\<close>

fun strings_HasPrefix :: "string \<Rightarrow> string \<Rightarrow> bool" where
  "strings_HasPrefix s [] = True"
| "strings_HasPrefix [] (p # ps) = False"
| "strings_HasPrefix (c # cs) (p # ps) = (c = p \<and> strings_HasPrefix cs ps)"

fun strings_Contains :: "string \<Rightarrow> string \<Rightarrow> bool" where
  "strings_Contains [] sub = (sub = [])"
| "strings_Contains (c # cs) sub =
     (strings_HasPrefix (c # cs) sub \<or> strings_Contains cs sub)"

text \<open>
  \<open>withCountUnlimited\<close>:
  \<^verbatim>\<open>
  func withCountUnlimited(s string) string {
      if strings.Contains(s, "count:") {
          return s
      }
      return s + " count:9999999"
  }
  \<close>
\<close>

definition withCountUnlimited :: "string \<Rightarrow> string" where
  "withCountUnlimited s =
     (if strings_Contains s ''count:'' then s else s @ '' count:9999999'')"

text \<open>
  The number of positions of \<open>s\<close> at which \<open>sub\<close> occurs; it is how "present exactly
  once" is stated for a directive of a query.
\<close>

fun occurrences :: "string \<Rightarrow> string \<Rightarrow> nat" where
  "occurrences [] sub = (if sub = [] then 1 else 0)"
| "occurrences (c # cs) sub =
     (if strings_HasPrefix (c # cs) sub then 1 else 0) + occurrences cs sub"

section \<open>The insight enqueuer (package background)\<close>

subsection \<open>Errors\<close>

text \<open>
  Go's \<open>error\<close> values. \<open>ErrorString\<close> is an error made from a message, \<open>Wrapped\<close> is
  what \<open>errors.Wrap\<close> builds, \<open>MultiError\<close> is go-multierror's \<open>*multierror.Error\<close>
  with its \<open>Errors\<close> slice. A nil error is \<open>None\<close> of \<open>error option\<close>.

  Modelled from the spec: \<open>DuplicateError\<close> is the error the queue store's \<open>Enqueue\<close>
  gives for an identity that is already queued or dispatched; the store is not part of
  the sources, which only call it through \<open>enqueueQueryRunnerJob\<close>.
\<close>

datatype error =
    ErrorString string
  | DuplicateError
  | Wrapped error string
  | MultiError "error list"

text \<open>\<open>errors.Wrap(err, msg)\<close>: nil for a nil \<open>err\<close>.\<close>

definition errors_Wrap :: "error option \<Rightarrow> string \<Rightarrow> error option" where
  "errors_Wrap e msg = (case e of None \<Rightarrow> None | Some x \<Rightarrow> Some (Wrapped x msg))"

text \<open>
  \<open>multierror.Append(err, e)\<close> for a non-nil \<open>e\<close>: the errors of \<open>err\<close> (none for nil,
  its list for a \<open>*multierror.Error\<close>, itself otherwise) followed by \<open>e\<close>, where an \<open>e\<close>
  that is a \<open>*multierror.Error\<close> is flattened into its list. The result is never nil.
\<close>

fun flatten_error :: "error \<Rightarrow> error list" where
  "flatten_error (MultiError es) = es"
| "flatten_error e = [e]"

definition multierror_Append :: "error option \<Rightarrow> error \<Rightarrow> error" where
  "multierror_Append e x =
     MultiError ((case e of None \<Rightarrow> [] | Some m \<Rightarrow> flatten_error m) @ flatten_error x)"

text \<open>The failures an error value returned by the pass lists (none for nil).\<close>

definition listed :: "error option \<Rightarrow> error list" where
  "listed e = (case e of None \<Rightarrow> [] | Some m \<Rightarrow> flatten_error m)"

subsection \<open>Time\<close>

text \<open>
  A \<open>time.Time\<close> is an instant, in nanoseconds; a \<open>time.Duration\<close> is an \<open>int64\<close> count
  of nanoseconds, whose arithmetic wraps around. \<open>t.Add(d)\<close> moves the instant by the
  signed value of \<open>d\<close>.
\<close>

type_synonym Time = int
type_synonym Duration = "64 word"

definition time_Add :: "Time \<Rightarrow> Duration \<Rightarrow> Time" where
  "time_Add t d = t + sint d"

definition time_Second :: Duration where
  "time_Second = 1000000000"

text \<open>\<^verbatim>\<open>const queryJobOffsetTime = 30 * time.Second\<close>\<close>

definition queryJobOffsetTime :: Duration where
  "queryJobOffsetTime = 30 * time_Second"

subsection \<open>Data\<close>

text \<open>
  \<open>insights.TimeSeries\<close> and the discovered insight: the fields the pass reads
  (\<open>series.Query\<close>, \<open>insight.Series\<close>) and the descriptive ones that make two series
  with the same data differ (name, title, description).
\<close>

record TimeSeries =
  Name :: string
  Query :: string

record SearchInsight =
  Title :: string
  Description :: string
  Series :: "TimeSeries list"

text \<open>
  \<open>queryrunner.Job\<close>, with the fields the pass sets. \<open>ProcessAfter\<close> is a
  \<open>*time.Time\<close>: \<open>None\<close> is the nil pointer.
\<close>

record Job =
  SeriesID :: string
  SearchQuery :: string
  ProcessAfter :: "Time option"
  State :: string
  Priority :: int
  Cost :: int

text \<open>
  What the pass uses of other packages, none of them in the sources, taken as parameters:
  \<open>discovery.Discover\<close> (from the setting store and the loader to the insights found,
  or an error; it reads only), \<open>discovery.Encode\<close> (the identity of a series) and the
  constants \<open>priority.High\<close> and \<open>priority.Indexed\<close>.
\<close>

record ('ss, 'ld) packages =
  discovery_Discover :: "'ss \<Rightarrow> 'ld \<Rightarrow> error + SearchInsight list"
  discovery_Encode :: "TimeSeries \<Rightarrow> string"
  priority_High :: int
  priority_Indexed :: int

subsection \<open>The pass\<close>

text \<open>
  The variables of \<open>discoverAndEnqueueInsights\<close> that live across iterations:
  \<open>uniqueSeries\<close>, \<open>multi\<close>, \<open>offset\<close> and the function's \<open>err\<close> (declared by the call
  of \<open>Discover\<close>, assigned again by every call of \<open>enqueueQueryRunnerJob\<close>). \<open>world\<close> is
  the state \<open>enqueueQueryRunnerJob\<close> acts on (the queue store), and \<open>emitted\<close> records
  every call of \<open>enqueueQueryRunnerJob\<close> in order, with the job passed and the error
  returned.
\<close>

record 'st vars =
  uniqueSeries :: "string \<rightharpoonup> TimeSeries"
  multi :: "error option"
  offset :: Duration
  err :: "error option"
  world :: 'st
  emitted :: "(Job \<times> error option) list"

text \<open>
  The body of the inner loop, for one series:
  \<^verbatim>\<open>
  seriesID := discovery.Encode(series)
  if err != nil {
      multi = multierror.Append(multi, err)
      continue
  }
  _, enqueuedAlready := uniqueSeries[seriesID]
  if enqueuedAlready {
      continue
  }
  uniqueSeries[seriesID] = series
  processAfter := now().Add(offset)
  offset += queryJobOffsetTime
  err = enqueueQueryRunnerJob(ctx, &queryrunner.Job{
      SeriesID:     seriesID,
      SearchQuery:  withCountUnlimited(series.Query),
      ProcessAfter: &processAfter,
      State:        "queued",
      Priority:     int(priority.High),
      Cost:         int(priority.Indexed),
  })
  if err != nil {
      multi = multierror.Append(multi, err)
  }
  \<close>
  \<open>now\<close> is a function of the program; \<open>now k\<close> is what its call number \<open>k\<close> of the
  pass returns (counted from 0). The pass calls it once before each call of
  \<open>enqueueQueryRunnerJob\<close>, so the number of the call is the length of \<open>emitted\<close>.
\<close>

definition enqueue_series ::
  "('ss, 'ld) packages \<Rightarrow> (nat \<Rightarrow> Time) \<Rightarrow> ('st \<Rightarrow> Job \<Rightarrow> 'st \<times> error option) \<Rightarrow>
   TimeSeries \<Rightarrow> 'st vars \<Rightarrow> 'st vars" where
  "enqueue_series P now enqueueQueryRunnerJob series v =
     (let seriesID = discovery_Encode P series in
      case err v of
        Some e \<Rightarrow> v\<lparr>multi := Some (multierror_Append (multi v) e)\<rparr>
      | None \<Rightarrow>
          (case uniqueSeries v seriesID of
             Some _ \<Rightarrow> v
           | None \<Rightarrow>
               (let processAfter = time_Add (now (length (emitted v))) (offset v);
                    job = \<lparr>SeriesID = seriesID,
                           SearchQuery = withCountUnlimited (Query series),
                           ProcessAfter = Some processAfter,
                           State = ''queued'',
                           Priority = priority_High P,
                           Cost = priority_Indexed P\<rparr>;
                    (w, e) = enqueueQueryRunnerJob (world v) job;
                    v' = v\<lparr>uniqueSeries := (uniqueSeries v)(seriesID \<mapsto> series),
                           offset := offset v + queryJobOffsetTime,
                           err := e,
                           world := w,
                           emitted := emitted v @ [(job, e)]\<rparr>
                in case e of
                     None \<Rightarrow> v'
                   | Some x \<Rightarrow> v'\<lparr>multi := Some (multierror_Append (multi v') x)\<rparr>)))"

text \<open>\<^verbatim>\<open>for _, series := range insight.Series { ... }\<close>\<close>

fun series_loop ::
  "('ss, 'ld) packages \<Rightarrow> (nat \<Rightarrow> Time) \<Rightarrow> ('st \<Rightarrow> Job \<Rightarrow> 'st \<times> error option) \<Rightarrow>
   TimeSeries list \<Rightarrow> 'st vars \<Rightarrow> 'st vars" where
  "series_loop P now enqueueQueryRunnerJob [] v = v"
| "series_loop P now enqueueQueryRunnerJob (series # rest) v =
     series_loop P now enqueueQueryRunnerJob rest
       (enqueue_series P now enqueueQueryRunnerJob series v)"

text \<open>\<^verbatim>\<open>for _, insight := range foundInsights { ... }\<close>\<close>

fun insights_loop ::
  "('ss, 'ld) packages \<Rightarrow> (nat \<Rightarrow> Time) \<Rightarrow> ('st \<Rightarrow> Job \<Rightarrow> 'st \<times> error option) \<Rightarrow>
   SearchInsight list \<Rightarrow> 'st vars \<Rightarrow> 'st vars" where
  "insights_loop P now enqueueQueryRunnerJob [] v = v"
| "insights_loop P now enqueueQueryRunnerJob (insight # rest) v =
     insights_loop P now enqueueQueryRunnerJob rest
       (series_loop P now enqueueQueryRunnerJob (Series insight) v)"

text \<open>
  What a pass leaves: the store, the calls of \<open>enqueueQueryRunnerJob\<close> it made, and the
  error it returns.
\<close>

record 'st pass =
  store :: 'st
  enqueue_calls :: "(Job \<times> error option) list"
  returned :: "error option"

text \<open>
  \<^verbatim>\<open>
  foundInsights, err := discovery.Discover(ctx, settingStore, loader, discovery.InsightFilterArgs{})
  if err != nil {
      return errors.Wrap(err, "Discover")
  }
  var (
      uniqueSeries = map[string]insights.TimeSeries{}
      multi        error
      offset       time.Duration
  )
  for ... { for ... { ... } }
  return multi
  \<close>
\<close>

definition discoverAndEnqueueInsights ::
  "('ss, 'ld) packages \<Rightarrow> (nat \<Rightarrow> Time) \<Rightarrow> 'ss \<Rightarrow> 'ld \<Rightarrow>
   ('st \<Rightarrow> Job \<Rightarrow> 'st \<times> error option) \<Rightarrow> 'st \<Rightarrow> 'st pass" where
  "discoverAndEnqueueInsights P now settingStore loader enqueueQueryRunnerJob st =
     (case discovery_Discover P settingStore loader of
        Inl e \<Rightarrow>
          \<lparr>store = st, enqueue_calls = [], returned = errors_Wrap (Some e) ''Discover''\<rparr>
      | Inr foundInsights \<Rightarrow>
          (let v = insights_loop P now enqueueQueryRunnerJob foundInsights
                     \<lparr>uniqueSeries = Map.empty, multi = None, offset = 0, err = None,
                      world = st, emitted = []\<rparr>
           in \<lparr>store = world v, enqueue_calls = emitted v, returned = multi v\<rparr>))"

subsection \<open>Notions for stating the properties\<close>

text \<open>The series of a pass in discovery order: insight by insight, series by series.\<close>

definition all_series :: "SearchInsight list \<Rightarrow> TimeSeries list" where
  "all_series foundInsights = concat (map Series foundInsights)"

text \<open>
  The unique series in discovery order: a series is kept when no earlier one (and no
  key of \<open>seen\<close>) has its identity.
\<close>

fun first_seen :: "('a \<Rightarrow> 'k) \<Rightarrow> 'k list \<Rightarrow> 'a list \<Rightarrow> 'a list" where
  "first_seen f seen [] = []"
| "first_seen f seen (x # xs) =
     (if f x \<in> set seen then first_seen f seen xs
      else x # first_seen f (f x # seen) xs)"

definition unique_series :: "(TimeSeries \<Rightarrow> string) \<Rightarrow> SearchInsight list \<Rightarrow> TimeSeries list" where
  "unique_series enc foundInsights = first_seen enc [] (all_series foundInsights)"

text \<open>The job the pass builds for a series, to be processed after the instant \<open>t\<close>.\<close>

definition job_for :: "('ss, 'ld) packages \<Rightarrow> Time \<Rightarrow> TimeSeries \<Rightarrow> Job" where
  "job_for P t series =
     \<lparr>SeriesID = discovery_Encode P series,
      SearchQuery = withCountUnlimited (Query series),
      ProcessAfter = Some t,
      State = ''queued'',
      Priority = priority_High P,
      Cost = priority_Indexed P\<rparr>"

text \<open>
  The jobs built for a list of series one after the other, from call number \<open>k\<close> of
  \<open>now\<close> and the offset \<open>off\<close> on.
\<close>

fun jobs_from ::
  "('ss, 'ld) packages \<Rightarrow> (nat \<Rightarrow> Time) \<Rightarrow> nat \<Rightarrow> Duration \<Rightarrow> TimeSeries list \<Rightarrow> Job list" where
  "jobs_from P now k off [] = []"
| "jobs_from P now k off (series # rest) =
     job_for P (time_Add (now k) off) series #
     jobs_from P now (Suc k) (off + queryJobOffsetTime) rest"

text \<open>The jobs passed to \<open>enqueueQueryRunnerJob\<close>, in order.\<close>

definition jobs :: "'st pass \<Rightarrow> Job list" where
  "jobs r = map fst (enqueue_calls r)"

text \<open>
  The invariant of the loop on its errors: every error a call of
  \<open>enqueueQueryRunnerJob\<close> returned is listed in \<open>multi\<close>, \<open>multi\<close> is nil exactly when no
  call failed, and \<open>err\<close> is nil exactly when \<open>multi\<close> is.
\<close>

definition errors_kept :: "'st vars \<Rightarrow> bool" where
  "errors_kept v \<longleftrightarrow>
     (\<forall>j e. (j, Some e) \<in> set (emitted v) \<longrightarrow> set (flatten_error e) \<subseteq> set (listed (multi v))) \<and>
     (multi v = None \<longleftrightarrow> (\<forall>j r. (j, r) \<in> set (emitted v) \<longrightarrow> r = None)) \<and>
     (err v = None \<longleftrightarrow> multi v = None)"

subsection \<open>Concrete collaborators\<close>

text \<open>
  Modelled from the spec: \<open>discovery.Encode\<close> is not in the sources. The spec has
  \<open>identity = contentHash(series)\<close>, a stable key derived from the content of the series
  (its query, not its name). For concrete passes the hash is taken without collisions:
  the query behind a tag.
\<close>

definition content_identity :: "TimeSeries \<Rightarrow> string" where
  "content_identity series = ''s:'' @ Query series"

text \<open>
  Modelled from the spec: the store's \<open>Enqueue(record) -> id | DuplicateError\<close>, which
  inserts a new record in state queued and fails with \<open>DuplicateError\<close> if a record of
  the same identity is already queued or dispatched. The store is the list of its
  records.
\<close>

definition store_Enqueue :: "Job list \<Rightarrow> Job \<Rightarrow> Job list \<times> error option" where
  "store_Enqueue st job =
     (if SeriesID job \<in> set (map SeriesID st) then (st, Some DuplicateError)
      else (st @ [job], None))"

text \<open>A store that refuses the job of one identity and takes every other job.\<close>

definition store_rejecting :: "string \<Rightarrow> Job list \<Rightarrow> Job \<Rightarrow> Job list \<times> error option" where
  "store_rejecting bad st job =
     (if SeriesID job = bad then (st, Some (ErrorString ''insert failed''))
      else (st @ [job], None))"

text \<open>
  A definition source that holds the insights themselves (or is unreachable), and the
  packages of the concrete passes.
\<close>

definition read_settings :: "SearchInsight list option \<Rightarrow> unit \<Rightarrow> error + SearchInsight list" where
  "read_settings settingStore loader =
     (case settingStore of
        None \<Rightarrow> Inl (ErrorString ''settings unreachable'')
      | Some found \<Rightarrow> Inr found)"

definition example_packages :: "(SearchInsight list option, unit) packages" where
  "example_packages =
     \<lparr>discovery_Discover = read_settings, discovery_Encode = content_identity,
      priority_High = 10, priority_Indexed = 500\<rparr>"

text \<open>An insight with one series.\<close>

definition insight1 :: "string \<Rightarrow> string \<Rightarrow> SearchInsight" where
  "insight1 title q =
     \<lparr>Title = title, Description = ''about '' @ title,
      Series = [\<lparr>Name = title, Query = q\<rparr>]\<rparr>"

section \<open>The backlog gauges of the executor queue (package main)\<close>

text \<open>
  A log record of log15: level, message and context. \<open>log15.Error\<close> appends one to the
  log.
\<close>

datatype LogValue = LogString string | LogError error

type_synonym LogRecord = "string \<times> string \<times> (string \<times> LogValue) list"

definition log15_Error :: "string \<Rightarrow> (string \<times> LogValue) list \<Rightarrow> LogRecord list \<Rightarrow> LogRecord list" where
  "log15_Error message ctx logs = logs @ [(''error'', message, ctx)]"

text \<open>
  Go's conversion \<open>float64(count)\<close> of an integer: the nearest value with a significand
  of 53 bits, a tie going to the even significand. The result is given as the real number
  the float stands for.
\<close>

fun bit_length :: "nat \<Rightarrow> nat" where
  "bit_length n = (if n = 0 then 0 else Suc (bit_length (n div 2)))"

declare bit_length.simps [simp del]

definition float64 :: "int \<Rightarrow> real" where
  "float64 n =
     (let a = nat \<bar>n\<bar>;
          e = bit_length a - 53;
          q = a div 2 ^ e;
          r = a mod 2 ^ e;
          q' = (if 2 * r > 2 ^ e \<or> (2 * r = 2 ^ e \<and> odd q) then q + 1 else q)
      in of_int (sgn n * int (q' * 2 ^ e)))"

text \<open>
  The store of a queue, as the gauge uses it: \<open>QueuedCount(ctx, conditions)\<close> with no
  conditions reads the database \<open>'db\<close> and returns a count (an \<open>int\<close>, 64 bits wide) and
  an error. \<open>QueueOptions\<close> holds the store of a queue.
\<close>

record 'db workerutil_Store =
  QueuedCount :: "'db \<Rightarrow> 64 word \<times> error option"

record 'db QueueOptions =
  Store :: "'db workerutil_Store"

text \<open>
  The function given to \<open>prometheus.NewGaugeFunc\<close>, a closure over \<open>queueName\<close> and the
  queue's store. It runs when the gauge is sampled, on the database and the log of that
  moment:
  \<^verbatim>\<open>
  func() float64 {
      count, err := store.QueuedCount(context.Background(), nil)
      if err != nil {
          log15.Error("Failed to get queued job count", "queue", queueName, "error", err)
      }
      return float64(count)
  }
  \<close>
\<close>

definition queued_count_gauge ::
  "string \<Rightarrow> 'db workerutil_Store \<Rightarrow> 'db \<Rightarrow> LogRecord list \<Rightarrow> real \<times> LogRecord list" where
  "queued_count_gauge queueName st db logs =
     (let (count, e) = QueuedCount st db;
          logs' = (case e of
                    None \<Rightarrow> logs
                  | Some x \<Rightarrow>
                      log15_Error ''Failed to get queued job count''
                        [(''queue'', LogString queueName), (''error'', LogError x)] logs)
      in (float64 (sint count), logs'))"

text \<open>
  A gauge of the registry: the options of \<open>prometheus.GaugeOpts\<close> (its \<open>Name\<close> is the
  field \<open>GaugeName\<close> here) and the function that samples it.
\<close>

record 'db GaugeFunc =
  GaugeName :: string
  Help :: string
  ConstLabels :: "(string \<times> string) list"
  sample :: "'db \<Rightarrow> LogRecord list \<Rightarrow> real \<times> LogRecord list"

text \<open>
  \<^verbatim>\<open>
  prometheus.NewGaugeFunc(prometheus.GaugeOpts{
      Name:        "src_executor_total",
      Help:        "Total number of jobs in the queued state.",
      ConstLabels: map[string]string{"queue": queueName},
  }, func() float64 { ... })
  \<close>
\<close>

definition backlog_gauge :: "string \<Rightarrow> 'db workerutil_Store \<Rightarrow> 'db GaugeFunc" where
  "backlog_gauge queueName st =
     \<lparr>GaugeName = ''src_executor_total'',
      Help = ''Total number of jobs in the queued state.'',
      ConstLabels = [(''queue'', queueName)],
      sample = queued_count_gauge queueName st\<rparr>"

text \<open>
  \<open>MustRegister\<close> of the Prometheus client, on the registry as the list of its gauges: it
  panics when a gauge of the same name and constant label values is registered already,
  or one of the same name with another help string or other label names; otherwise the
  gauge is added.
\<close>

datatype panic = AlreadyRegistered | InconsistentDescriptor

definition prometheus_MustRegister ::
  "'db GaugeFunc \<Rightarrow> 'db GaugeFunc list \<Rightarrow> panic + 'db GaugeFunc list" where
  "prometheus_MustRegister g reg =
     (if \<exists>h\<in>set reg. GaugeName h = GaugeName g \<and> ConstLabels h = ConstLabels g
      then Inl AlreadyRegistered
      else if \<exists>h\<in>set reg. GaugeName h = GaugeName g \<and>
                (Help h \<noteq> Help g \<or> map fst (ConstLabels h) \<noteq> map fst (ConstLabels g))
      then Inl InconsistentDescriptor
      else Inr (reg @ [g]))"

text \<open>
  The loop of \<open>main\<close> over the map \<open>queueOptions\<close>; the list holds the entries of the map
  in the order the loop visits them (Go leaves the order open), so its keys are distinct.
  \<^verbatim>\<open>
  for queueName, options := range queueOptions {
      queueName, store := queueName, options.Store
      prometheus.DefaultRegisterer.MustRegister(prometheus.NewGaugeFunc(...))
  }
  \<close>
\<close>

fun register_gauges ::
  "(string \<times> 'db QueueOptions) list \<Rightarrow> 'db GaugeFunc list \<Rightarrow> panic + 'db GaugeFunc list" where
  "register_gauges [] reg = Inr reg"
| "register_gauges ((queueName, options) # rest) reg =
     (case prometheus_MustRegister (backlog_gauge queueName (Store options)) reg of
        Inl p \<Rightarrow> Inl p
      | Inr reg' \<Rightarrow> register_gauges rest reg')"

text \<open>
  The queues \<open>main\<close> configures:
  \<^verbatim>\<open>
  queueOptions := map[string]apiserver.QueueOptions{
      "codeintel": codeintel.QueueOptions(db, codeintelConfig, observationContext),
      "batches":   batches.QueueOptions(db, batchesConfig, observationContext),
  }
  \<close>
\<close>

definition queueOptions ::
  "'db QueueOptions \<Rightarrow> 'db QueueOptions \<Rightarrow> (string \<times> 'db QueueOptions) list" where
  "queueOptions codeintelOptions batchesOptions =
     [(''codeintel'', codeintelOptions), (''batches'', batchesOptions)]"

text \<open>
  Two stores for concrete runs, on a database that is the pair of the two backlogs: one
  that counts the first, one that is down.
\<close>

definition counting_store :: "(nat \<times> nat) workerutil_Store" where
  "counting_store = \<lparr>QueuedCount = (\<lambda>db. (of_nat (fst db), None))\<rparr>"

definition failing_store :: "(nat \<times> nat) workerutil_Store" where
  "failing_store = \<lparr>QueuedCount = (\<lambda>db. (0, Some (ErrorString ''connection refused'')))\<rparr>"

section \<open>Properties of the normalisation\<close>

lemma strings_HasPrefix_iff: "strings_HasPrefix s p \<longleftrightarrow> (\<exists>r. s = p @ r)"
  by (induction s p rule: strings_HasPrefix.induct) auto

lemma strings_Contains_iff: "strings_Contains s sub \<longleftrightarrow> (\<exists>l r. s = l @ sub @ r)"
proof (induction s)
  case Nil
  then show ?case by auto
next
  case (Cons c cs)
  show ?case
  proof
    assume "strings_Contains (c # cs) sub"
    then consider "strings_HasPrefix (c # cs) sub" | "strings_Contains cs sub"
      by auto
    then show "\<exists>l r. c # cs = l @ sub @ r"
    proof cases
      case 1
      then obtain r where "c # cs = sub @ r"
        by (auto simp: strings_HasPrefix_iff)
      then have "c # cs = [] @ sub @ r" by simp
      then show ?thesis by blast
    next
      case 2
      then obtain l r where "cs = l @ sub @ r"
        using Cons.IH by blast
      then have "c # cs = (c # l) @ sub @ r" by simp
      then show ?thesis by blast
    qed
  next
    assume "\<exists>l r. c # cs = l @ sub @ r"
    then obtain l r where lr: "c # cs = l @ sub @ r" by blast
    show "strings_Contains (c # cs) sub"
    proof (cases l)
      case Nil
      with lr have "strings_HasPrefix (c # cs) sub"
        by (auto simp: strings_HasPrefix_iff)
      then show ?thesis by simp
    next
      case (Cons a l')
      with lr have "cs = l' @ sub @ r" by simp
      then have "strings_Contains cs sub"
        using Cons.IH by blast
      then show ?thesis by simp
    qed
  qed
qed

lemma strings_Contains_shorter:
  "strings_Contains s (p @ q) \<Longrightarrow> strings_Contains s p"
proof -
  assume "strings_Contains s (p @ q)"
  then obtain l r where "s = l @ (p @ q) @ r"
    unfolding strings_Contains_iff by blast
  then have "s = l @ p @ (q @ r)" by simp
  then show ?thesis
    unfolding strings_Contains_iff by blast
qed

lemma strings_HasPrefix_across_space:
  "strings_HasPrefix (s @ CHR '' '' # t) p \<Longrightarrow> CHR '' '' \<notin> set p \<Longrightarrow> strings_HasPrefix s p"
proof (induction s p rule: strings_HasPrefix.induct)
  case (1 s)
  then show ?case by simp
next
  case (2 p ps)
  then show ?case by auto
next
  case (3 c cs p ps)
  then show ?case by simp
qed

lemma occurrences_append_directive:
  "\<not> strings_Contains s p \<Longrightarrow> CHR '' '' \<notin> set p \<Longrightarrow>
   occurrences (s @ CHR '' '' # t) p = occurrences (CHR '' '' # t) p"
proof (induction s)
  case Nil
  then show ?case by simp
next
  case (Cons c cs)
  from Cons.prems have no_here: "\<not> strings_HasPrefix (c # cs) p"
    and no_later: "\<not> strings_Contains cs p"
    by auto
  have "\<not> strings_HasPrefix ((c # cs) @ CHR '' '' # t) p"
    using no_here Cons.prems(2) strings_HasPrefix_across_space by blast
  then show ?case
    using Cons.IH [OF no_later Cons.prems(2)] by simp
qed

lemma withCountUnlimited_Contains: "strings_Contains (withCountUnlimited s) ''count:''"
proof (cases "strings_Contains s ''count:''")
  case True
  then show ?thesis by (simp add: withCountUnlimited_def)
next
  case False
  have "strings_Contains ('' count:9999999'') ''count:''" by simp
  then have "strings_Contains (s @ '' count:9999999'') ''count:''"
    unfolding strings_Contains_iff by (metis append.assoc)
  with False show ?thesis by (simp add: withCountUnlimited_def)
qed

text \<open>
  C7, as amended. For every query \<open>s\<close>, \<open>withCountUnlimited\<close> returns \<open>s\<close> unchanged
  when \<open>s\<close> contains \<open>count:\<close>, and otherwise \<open>s\<close> with \<open> count:9999999\<close> appended.
  The result always contains a \<open>count:\<close> directive; when \<open>s\<close> had none, the result holds
  \<open>count:\<close> exactly once, and it is the unbounded directive \<open>count:9999999\<close>. Normalising
  \<open>lang:go\<close> yields \<open>lang:go count:9999999\<close>.
\<close>

theorem withCountUnlimited_spec:
  "(strings_Contains s ''count:'' \<longrightarrow> withCountUnlimited s = s) \<and>
   (\<not> strings_Contains s ''count:'' \<longrightarrow>
      withCountUnlimited s = s @ '' count:9999999'' \<and>
      occurrences (withCountUnlimited s) ''count:'' = 1 \<and>
      occurrences (withCountUnlimited s) ''count:9999999'' = 1) \<and>
   strings_Contains (withCountUnlimited s) ''count:'' \<and>
   withCountUnlimited ''lang:go'' = ''lang:go count:9999999''"
proof -
  have unchanged: "strings_Contains s ''count:'' \<longrightarrow> withCountUnlimited s = s"
    by (simp add: withCountUnlimited_def)
  have appended: "withCountUnlimited s = s @ '' count:9999999''"
    and once: "occurrences (withCountUnlimited s) ''count:'' = 1"
    and once_unbounded: "occurrences (withCountUnlimited s) ''count:9999999'' = 1"
    if none: "\<not> strings_Contains s ''count:''"
  proof -
    show eq: "withCountUnlimited s = s @ '' count:9999999''"
      using none by (simp add: withCountUnlimited_def)
    have "occurrences (s @ CHR '' '' # ''count:9999999'') ''count:''
        = occurrences (CHR '' '' # ''count:9999999'') ''count:''"
      by (rule occurrences_append_directive [OF none]) simp
    then show "occurrences (withCountUnlimited s) ''count:'' = 1"
      by (simp add: eq)
    have "\<not> strings_Contains s (''count:'' @ ''9999999'')"
      using none strings_Contains_shorter by blast
    then have none': "\<not> strings_Contains s ''count:9999999''" by simp
    have "occurrences (s @ CHR '' '' # ''count:9999999'') ''count:9999999''
        = occurrences (CHR '' '' # ''count:9999999'') ''count:9999999''"
      by (rule occurrences_append_directive [OF none']) simp
    then show "occurrences (withCountUnlimited s) ''count:9999999'' = 1"
      by (simp add: eq)
  qed
  have example: "withCountUnlimited ''lang:go'' = ''lang:go count:9999999''"
    by (simp add: withCountUnlimited_def)
  show ?thesis
    using unchanged appended once once_unbounded withCountUnlimited_Contains example
    by blast
qed

theorem withCountUnlimited_spec_witness:
  "\<not> strings_Contains ''repo:a TODO'' ''count:'' \<and>
   withCountUnlimited ''repo:a TODO'' = ''repo:a TODO count:9999999'' \<and>
   occurrences (withCountUnlimited ''repo:a TODO'') ''count:9999999'' = 1 \<and>
   strings_Contains ''f count:10'' ''count:'' \<and>
   withCountUnlimited ''f count:10'' = ''f count:10''"
proof -
  have a: "\<not> strings_Contains ''repo:a TODO'' ''count:''" by simp
  have b: "strings_Contains ''f count:10'' ''count:''" by simp
  show ?thesis
    using a b withCountUnlimited_spec [of "''repo:a TODO''"]
      withCountUnlimited_spec [of "''f count:10''"]
    by simp
qed

text \<open>
  C7 as stated fails where the query already has a bounded \<open>count:\<close> directive: the
  query is returned as it is, and the unbounded directive is not in it (once or at all).
\<close>

theorem withCountUnlimited_bounded_count_counterexample:
  "withCountUnlimited ''lang:go count:10'' = ''lang:go count:10'' \<and>
   occurrences (withCountUnlimited ''lang:go count:10'') ''count:9999999'' = 0 \<and>
   occurrences (withCountUnlimited ''count:1 count:2'') ''count:'' = 2"
  by (simp add: withCountUnlimited_def)

text \<open>
  C9. \<open>withCountUnlimited\<close> is idempotent: its result contains \<open>count:\<close>, so a second
  application returns it unchanged.
\<close>

theorem withCountUnlimited_idempotent:
  "withCountUnlimited (withCountUnlimited s) = withCountUnlimited s"
proof -
  have "strings_Contains (withCountUnlimited s) ''count:''"
    by (rule withCountUnlimited_Contains)
  then show ?thesis
    by (simp add: withCountUnlimited_def [of "withCountUnlimited s"])
qed

section \<open>The loops of the pass\<close>

lemma series_loop_append:
  "series_loop P now emit (xs @ ys) v = series_loop P now emit ys (series_loop P now emit xs v)"
  by (induction xs arbitrary: v) simp_all

lemma insights_loop_flat:
  "insights_loop P now emit found v = series_loop P now emit (all_series found) v"
  by (induction found arbitrary: v) (simp_all add: all_series_def series_loop_append)

lemma enqueue_series_stale:
  "err v = Some e \<Longrightarrow>
   enqueue_series P now emit s v = v\<lparr>multi := Some (multierror_Append (multi v) e)\<rparr>"
  by (simp add: enqueue_series_def)

lemma enqueue_series_seen:
  "err v = None \<Longrightarrow> uniqueSeries v (discovery_Encode P s) = Some t \<Longrightarrow>
   enqueue_series P now emit s v = v"
  by (simp add: enqueue_series_def)

lemma enqueue_series_new:
  assumes "err v = None" and "uniqueSeries v (discovery_Encode P s) = None"
    and "job = job_for P (time_Add (now (length (emitted v))) (offset v)) s"
  shows "emitted (enqueue_series P now emit s v) = emitted v @ [(job, snd (emit (world v) job))]"
    and "world (enqueue_series P now emit s v) = fst (emit (world v) job)"
    and "err (enqueue_series P now emit s v) = snd (emit (world v) job)"
    and "offset (enqueue_series P now emit s v) = offset v + queryJobOffsetTime"
    and "uniqueSeries (enqueue_series P now emit s v) = (uniqueSeries v)(discovery_Encode P s \<mapsto> s)"
    and "multi (enqueue_series P now emit s v) =
          (case snd (emit (world v) job) of None \<Rightarrow> multi v
           | Some x \<Rightarrow> Some (multierror_Append (multi v) x))"
  using assms
  by (simp_all add: enqueue_series_def job_for_def Let_def split: prod.splits option.splits)

lemma series_loop_stale:
  "err v = Some e \<Longrightarrow>
   emitted (series_loop P now emit ss v) = emitted v \<and>
   world (series_loop P now emit ss v) = world v \<and>
   err (series_loop P now emit ss v) = Some e"
  by (induction ss arbitrary: v) (simp_all add: enqueue_series_stale)


lemma series_loop_invariant:
  assumes "I v" and "\<And>s v. I v \<Longrightarrow> I (enqueue_series P now emit s v)"
  shows "I (series_loop P now emit ss v)"
  using assms(1)
  by (induction ss arbitrary: v) (simp_all add: assms(2))

lemma jobs_from_length: "length (jobs_from P now k off ss) = length ss"
  by (induction ss arbitrary: k off) simp_all

lemma jobs_from_nth:
  "i < length ss \<Longrightarrow>
   jobs_from P now k off ss ! i =
     job_for P (time_Add (now (k + i)) (off + of_nat i * queryJobOffsetTime)) (ss ! i)"
proof (induction ss arbitrary: k off i)
  case Nil
  then show ?case by simp
next
  case (Cons s ss)
  show ?case
  proof (cases i)
    case 0
    then show ?thesis by simp
  next
    case (Suc m)
    with Cons.prems have "m < length ss" by simp
    from Cons.IH [OF this, of "Suc k" "off + queryJobOffsetTime"] Suc
    show ?thesis by (simp add: algebra_simps)
  qed
qed

lemma first_seen_keys:
  "distinct (map f (first_seen f seen xs)) \<and> set (map f (first_seen f seen xs)) \<inter> set seen = {}"
proof (induction xs arbitrary: seen)
  case Nil
  then show ?case by simp
next
  case (Cons x xs)
  show ?case
  proof (cases "f x \<in> set seen")
    case True
    then show ?thesis using Cons.IH [of seen] by simp
  next
    case False
    then show ?thesis using Cons.IH [of "f x # seen"] by auto
  qed
qed

lemma first_seen_first:
  "i < length (first_seen f seen xs) \<Longrightarrow>
   \<exists>k<length xs. xs ! k = first_seen f seen xs ! i \<and> (\<forall>k'<k. f (xs ! k') \<noteq> f (xs ! k))"
proof (induction xs arbitrary: seen i)
  case Nil
  then show ?case by simp
next
  case (Cons x xs)
  show ?case
  proof (cases "f x \<in> set seen")
    case True
    with Cons.prems have "i < length (first_seen f seen xs)" by simp
    from Cons.IH [OF this] obtain k where k: "k < length xs"
      "xs ! k = first_seen f seen xs ! i" "\<forall>k'<k. f (xs ! k') \<noteq> f (xs ! k)"
      by blast
    have "f (xs ! k) \<notin> set seen"
      using first_seen_keys [of f seen xs] \<open>i < length (first_seen f seen xs)\<close> k(2)
      by (metis disjoint_iff length_map nth_map nth_mem)
    with True have "f x \<noteq> f (xs ! k)" by auto
    with k have "Suc k < length (x # xs) \<and> (x # xs) ! Suc k = first_seen f seen (x # xs) ! i \<and>
        (\<forall>k'<Suc k. f ((x # xs) ! k') \<noteq> f ((x # xs) ! Suc k))"
      using True by (auto simp: less_Suc_eq_0_disj)
    then show ?thesis by blast
  next
    case False
    show ?thesis
    proof (cases i)
      case 0
      with False have "0 < length (x # xs) \<and> (x # xs) ! 0 = first_seen f seen (x # xs) ! i \<and>
          (\<forall>k'<0. f ((x # xs) ! k') \<noteq> f ((x # xs) ! 0))"
        by simp
      then show ?thesis by blast
    next
      case (Suc m)
      with Cons.prems False have m: "m < length (first_seen f (f x # seen) xs)" by simp
      from Cons.IH [OF this] obtain k where k: "k < length xs"
        "xs ! k = first_seen f (f x # seen) xs ! m" "\<forall>k'<k. f (xs ! k') \<noteq> f (xs ! k)"
        by blast
      have "f (xs ! k) \<notin> set (f x # seen)"
        using first_seen_keys [of f "f x # seen" xs] m k(2)
        by (metis disjoint_iff length_map nth_map nth_mem)
      then have "f x \<noteq> f (xs ! k)" by auto
      with k have "Suc k < length (x # xs) \<and> (x # xs) ! Suc k = first_seen f seen (x # xs) ! i \<and>
          (\<forall>k'<Suc k. f ((x # xs) ! k') \<noteq> f ((x # xs) ! Suc k))"
        using False Suc by (auto simp: less_Suc_eq_0_disj)
      then show ?thesis by blast
    qed
  qed
qed

lemma series_loop_jobs:
  "err v = None \<Longrightarrow> set seen = dom (uniqueSeries v) \<Longrightarrow>
   \<exists>n\<le>length (first_seen (discovery_Encode P) seen ss).
     map fst (emitted (series_loop P now emit ss v)) =
       map fst (emitted v) @
       jobs_from P now (length (emitted v)) (offset v)
         (take n (first_seen (discovery_Encode P) seen ss)) \<and>
     (err (series_loop P now emit ss v) = None \<longrightarrow>
        n = length (first_seen (discovery_Encode P) seen ss))"
proof (induction ss arbitrary: v seen)
  case Nil
  then show ?case by simp
next
  case (Cons s ss)
  let ?enc = "discovery_Encode P"
  show ?case
  proof (cases "uniqueSeries v (?enc s)")
    case (Some t)
    then have "?enc s \<in> set seen" using Cons.prems(2) by auto
    moreover have "enqueue_series P now emit s v = v"
      using Cons.prems(1) Some by (rule enqueue_series_seen)
    ultimately show ?thesis
      using Cons.IH [OF Cons.prems] by simp
  next
    case None
    then have fresh: "?enc s \<notin> set seen" using Cons.prems(2) by auto
    define job where "job = job_for P (time_Add (now (length (emitted v))) (offset v)) s"
    define v' where "v' = enqueue_series P now emit s v"
    note step = enqueue_series_new [where now = now and emit = emit, OF Cons.prems(1) None job_def, folded v'_def]
    let ?U' = "first_seen ?enc (?enc s # seen) ss"
    have U: "first_seen ?enc seen (s # ss) = s # ?U'"
      using fresh by simp
    have loop: "series_loop P now emit (s # ss) v = series_loop P now emit ss v'"
      by (simp add: v'_def)
    show ?thesis
    proof (cases "err v'")
      case None
      have seen': "set (?enc s # seen) = dom (uniqueSeries v')"
        using Cons.prems(2) by (simp add: step(5))
      from Cons.IH [OF None seen'] obtain n where n: "n \<le> length ?U'"
        "map fst (emitted (series_loop P now emit ss v')) =
           map fst (emitted v') @ jobs_from P now (length (emitted v')) (offset v') (take n ?U')"
        "err (series_loop P now emit ss v') = None \<longrightarrow> n = length ?U'"
        by (elim exE conjE)
      show ?thesis
      proof (intro exI conjI)
        show "Suc n \<le> length (first_seen ?enc seen (s # ss))"
          using n(1) U by simp
        show "map fst (emitted (series_loop P now emit (s # ss) v)) =
            map fst (emitted v) @
            jobs_from P now (length (emitted v)) (offset v)
              (take (Suc n) (first_seen ?enc seen (s # ss)))"
          unfolding loop U using n(2) by (simp add: step(1) step(4) job_def)
        show "err (series_loop P now emit (s # ss) v) = None \<longrightarrow>
            Suc n = length (first_seen ?enc seen (s # ss))"
          unfolding loop U using n(3) by simp
      qed
    next
      case (Some e)
      from series_loop_stale [OF Some, of P now emit ss]
      have stale: "emitted (series_loop P now emit ss v') = emitted v'"
        "err (series_loop P now emit ss v') = Some e"
        by simp_all
      show ?thesis
      proof (intro exI conjI)
        show "Suc 0 \<le> length (first_seen ?enc seen (s # ss))"
          using U by simp
        show "map fst (emitted (series_loop P now emit (s # ss) v)) =
            map fst (emitted v) @
            jobs_from P now (length (emitted v)) (offset v)
              (take (Suc 0) (first_seen ?enc seen (s # ss)))"
          unfolding loop U by (simp add: stale(1) step(1) job_def)
        show "err (series_loop P now emit (s # ss) v) = None \<longrightarrow>
            Suc 0 = length (first_seen ?enc seen (s # ss))"
          unfolding loop by (simp add: stale(2))
      qed
    qed
  qed
qed

lemma listed_Append:
  "listed (Some (multierror_Append m x)) = listed m @ flatten_error x"
  by (simp add: listed_def multierror_Append_def)

lemma errors_kept_step:
  assumes "errors_kept v"
  shows "errors_kept (enqueue_series P now emit s v)"
proof -
  from assms have kept: "\<And>j e. (j, Some e) \<in> set (emitted v) \<Longrightarrow>
      set (flatten_error e) \<subseteq> set (listed (multi v))"
    and nil: "multi v = None \<longleftrightarrow> (\<forall>j r. (j, r) \<in> set (emitted v) \<longrightarrow> r = None)"
    and stale: "err v = None \<longleftrightarrow> multi v = None"
    unfolding errors_kept_def by blast+
  show ?thesis
  proof (cases "err v")
    case (Some e)
    then obtain j r where failed: "(j, r) \<in> set (emitted v)" "r \<noteq> None"
      using nil stale by auto
    let ?v' = "v\<lparr>multi := Some (multierror_Append (multi v) e)\<rparr>"
    have "\<And>j e. (j, Some e) \<in> set (emitted ?v') \<Longrightarrow>
        set (flatten_error e) \<subseteq> set (listed (multi ?v'))"
      using kept by (fastforce simp: listed_Append)
    moreover have "multi ?v' = None \<longleftrightarrow> (\<forall>j r. (j, r) \<in> set (emitted ?v') \<longrightarrow> r = None)"
      using failed by auto
    moreover have "err ?v' = None \<longleftrightarrow> multi ?v' = None"
      using Some by simp
    ultimately have "errors_kept ?v'"
      unfolding errors_kept_def by blast
    then show ?thesis
      by (simp add: enqueue_series_stale [OF Some])
  next
    case None
    show ?thesis
    proof (cases "uniqueSeries v (discovery_Encode P s)")
      case (Some t)
      then show ?thesis
        using assms by (simp add: enqueue_series_seen [OF None Some])
    next
      case unseen: None
      define job where "job = job_for P (time_Add (now (length (emitted v))) (offset v)) s"
      define v' where "v' = enqueue_series P now emit s v"
      note step = enqueue_series_new [where now = now and emit = emit, OF None unseen job_def,
          folded v'_def]
      from None stale have m: "multi v = None" by simp
      with nil have ok: "\<And>j r. (j, r) \<in> set (emitted v) \<Longrightarrow> r = None" by blast
      have "errors_kept v'"
      proof (cases "snd (emit (world v) job)")
        case None
        then show ?thesis
          using ok m unfolding errors_kept_def step by auto
      next
        case (Some x)
        have "\<And>j e. (j, Some e) \<in> set (emitted v') \<Longrightarrow>
            set (flatten_error e) \<subseteq> set (listed (multi v'))"
          using ok Some unfolding step by (auto simp: listed_Append)
        moreover have "multi v' = None \<longleftrightarrow> (\<forall>j r. (j, r) \<in> set (emitted v') \<longrightarrow> r = None)"
          using Some unfolding step by auto
        moreover have "err v' = None \<longleftrightarrow> multi v' = None"
          using Some unfolding step by simp
        ultimately show ?thesis
          unfolding errors_kept_def by blast
      qed
      then show ?thesis by (simp add: v'_def)
    qed
  qed
qed

lemma errors_kept_pass:
  "errors_kept (insights_loop P now emit found
     \<lparr>uniqueSeries = Map.empty, multi = None, offset = 0, err = None, world = st, emitted = []\<rparr>)"
  unfolding insights_loop_flat
proof (rule series_loop_invariant)
  show "errors_kept \<lparr>uniqueSeries = Map.empty, multi = None, offset = 0, err = None,
      world = st, emitted = []\<rparr>"
    by (simp add: errors_kept_def)
  show "\<And>s v. errors_kept v \<Longrightarrow> errors_kept (enqueue_series P now emit s v)"
    by (rule errors_kept_step)
qed

lemma pass_errors:
  assumes "discovery_Discover P settingStore loader = Inr found"
    and "r = discoverAndEnqueueInsights P now settingStore loader emit st"
  shows "(j, Some e) \<in> set (enqueue_calls r) \<Longrightarrow>
      set (flatten_error e) \<subseteq> set (listed (returned r))"
    and "returned r = None \<longleftrightarrow> (\<forall>j x. (j, x) \<in> set (enqueue_calls r) \<longrightarrow> x = None)"
  using errors_kept_pass [of P now emit found st] assms
  unfolding errors_kept_def discoverAndEnqueueInsights_def
  by (simp_all add: Let_def)

lemma pass_jobs:
  assumes "discovery_Discover P settingStore loader = Inr found"
    and "r = discoverAndEnqueueInsights P now settingStore loader emit st"
    and "U = unique_series (discovery_Encode P) found"
  shows "jobs r = jobs_from P now 0 0 (take (length (jobs r)) U)"
    and "length (jobs r) \<le> length U"
    and "returned r = None \<Longrightarrow> length (jobs r) = length U"
proof -
  let ?init = "\<lparr>uniqueSeries = Map.empty, multi = None, offset = 0, err = None,
      world = st, emitted = []\<rparr>"
  let ?fin = "series_loop P now emit (all_series found) ?init"
  have r: "enqueue_calls r = emitted ?fin" "returned r = multi ?fin"
    using assms(1,2) by (simp_all add: discoverAndEnqueueInsights_def Let_def insights_loop_flat)
  have "err ?init = None" and "set [] = dom (uniqueSeries ?init)" by simp_all
  from series_loop_jobs [where P = P and now = now and emit = emit and ss = "all_series found",
      OF this]
  obtain n where n: "n \<le> length U"
    "map fst (emitted ?fin) = jobs_from P now 0 0 (take n U)"
    "err ?fin = None \<longrightarrow> n = length U"
    unfolding assms(3) unique_series_def by (elim exE conjE) simp
  have len: "length (jobs r) = n"
    using n(1,2) by (simp add: jobs_def r(1) jobs_from_length flip: length_map [of fst "emitted ?fin"])
  show "jobs r = jobs_from P now 0 0 (take (length (jobs r)) U)"
    unfolding len using n(2) by (simp add: jobs_def r(1))
  show "length (jobs r) \<le> length U"
    using n(1) len by simp
  have "errors_kept ?fin"
    using errors_kept_pass [of P now emit found st] by (simp add: insights_loop_flat)
  then have "err ?fin = None \<longleftrightarrow> multi ?fin = None"
    unfolding errors_kept_def by blast
  then show "returned r = None \<Longrightarrow> length (jobs r) = length U"
    using n(3) len r(2) by simp
qed

lemma sint_offset:
  assumes "i \<le> 307445734"
  shows "sint (of_nat i * queryJobOffsetTime) = int i * 30000000000"
proof -
  have eq: "of_nat i * queryJobOffsetTime = (word_of_int (int i * 30000000000) :: 64 word)"
    by (simp add: queryJobOffsetTime_def time_Second_def)
  have "sint (of_nat i * queryJobOffsetTime) =
      signed_take_bit (LENGTH(64) - 1) (int i * 30000000000)"
    unfolding eq by (rule sint_sbintrunc')
  also have "\<dots> = signed_take_bit 63 (int i * 30000000000)"
    by simp
  also have "\<dots> = int i * 30000000000"
  proof (rule signed_take_bit_int_eq_self)
    show "- (2 ^ 63) \<le> int i * 30000000000"
      by (rule order_trans [of _ 0]) simp_all
    have "int i * 30000000000 \<le> 307445734 * 30000000000"
      using assms by simp
    then show "int i * 30000000000 < 2 ^ 63" by simp
  qed
  finally show ?thesis .
qed

text \<open>One series more and the offset has wrapped around to a negative duration.\<close>

lemma offset_wraps:
  "sint (of_nat 307445735 * queryJobOffsetTime) = 307445735 * 30000000000 - 2 ^ 64"
  by (simp add: queryJobOffsetTime_def time_Second_def)

lemma jobs_from_keys:
  "map (\<lambda>j. (SeriesID j, SearchQuery j)) (jobs_from P now k off ss) =
   map (\<lambda>s. (discovery_Encode P s, withCountUnlimited (Query s))) ss"
  by (induction ss arbitrary: k off) (simp_all add: job_for_def)

lemma jobs_from_SeriesID:
  "map SeriesID (jobs_from P now k off ss) = map (discovery_Encode P) ss"
  by (induction ss arbitrary: k off) (simp_all add: job_for_def)

text \<open>The definitions that a concrete pass unfolds.\<close>

lemmas pass_eval =
  discoverAndEnqueueInsights_def example_packages_def read_settings_def content_identity_def
  insight1_def store_Enqueue_def store_rejecting_def enqueue_series_def
  multierror_Append_def withCountUnlimited_def time_Add_def queryJobOffsetTime_def
  time_Second_def jobs_def listed_def Let_def

section \<open>Claims on the discovery pass\<close>

text \<open>
  C6. If pulling the work definitions from the definition source fails, the pass returns
  an error (the source's error, wrapped), makes no call of \<open>enqueueQueryRunnerJob\<close> and
  leaves the store as it was.
\<close>

theorem discover_failure_aborts_pass:
  assumes "discovery_Discover P settingStore loader = Inl e"
  shows "discoverAndEnqueueInsights P now settingStore loader enqueueQueryRunnerJob st =
    \<lparr>store = st, enqueue_calls = [], returned = Some (Wrapped e ''Discover'')\<rparr>"
  using assms by (simp add: discoverAndEnqueueInsights_def errors_Wrap_def)

theorem discover_failure_aborts_pass_witness:
  "discovery_Discover example_packages None () = Inl (ErrorString ''settings unreachable'') \<and>
   discoverAndEnqueueInsights example_packages (\<lambda>k. 1000) None () store_Enqueue [] =
     \<lparr>store = [], enqueue_calls = [],
      returned = Some (Wrapped (ErrorString ''settings unreachable'') ''Discover'')\<rparr>"
proof -
  have h: "discovery_Discover example_packages None () = Inl (ErrorString ''settings unreachable'')"
    by (simp add: example_packages_def read_settings_def)
  show ?thesis
    using h discover_failure_aborts_pass [OF h, of "\<lambda>k. 1000" store_Enqueue "[]"]
    by simp
qed

text \<open>
  C3. In a pass, the call number \<open>i\<close> of \<open>enqueueQueryRunnerJob\<close> (from 0) is for the
  \<open>i\<close>-th unique series in discovery order, and its job has
  \<open>process_after = now + i * 30s\<close>: the reading of \<open>now\<close> taken for that series, moved by
  an offset that starts at zero and grows by 30 seconds (30000000000 nanoseconds) per unique
  series. A pass that returns no error has made one call for each unique series. The
  offset is an \<open>int64\<close> of nanoseconds; \<open>i * 30s\<close> fits in it up to \<open>i = 307445734\<close>.
\<close>

theorem process_after_offsets:
  assumes "discovery_Discover P settingStore loader = Inr found"
    and "r = discoverAndEnqueueInsights P now settingStore loader enqueueQueryRunnerJob st"
    and "i < length (jobs r)" and "i \<le> 307445734"
  shows "SeriesID (jobs r ! i) =
      discovery_Encode P (unique_series (discovery_Encode P) found ! i) \<and>
    ProcessAfter (jobs r ! i) = Some (now i + int i * 30000000000) \<and>
    (returned r = None \<longrightarrow>
      length (jobs r) = length (unique_series (discovery_Encode P) found))"
proof -
  let ?U = "unique_series (discovery_Encode P) found"
  note pass = pass_jobs [OF assms(1,2) refl]
  have i: "i < length (take (length (jobs r)) ?U)"
    using assms(3) pass(2) by simp
  have "jobs r ! i = jobs_from P now 0 0 (take (length (jobs r)) ?U) ! i"
    using pass(1) by simp
  also have "\<dots> = job_for P (time_Add (now (0 + i)) (0 + of_nat i * queryJobOffsetTime))
      (take (length (jobs r)) ?U ! i)"
    using i by (rule jobs_from_nth)
  also have "take (length (jobs r)) ?U ! i = ?U ! i"
    using assms(3) by simp
  finally have job: "jobs r ! i =
      job_for P (time_Add (now i) (of_nat i * queryJobOffsetTime)) (?U ! i)"
    by simp
  have "time_Add (now i) (of_nat i * queryJobOffsetTime) = now i + int i * 30000000000"
    by (simp add: time_Add_def sint_offset [OF assms(4)])
  with job show ?thesis
    using pass(3) by (simp add: job_for_def)
qed

theorem process_after_offsets_witness:
  "discovery_Discover example_packages
     (Some [insight1 ''A'' ''a'', insight1 ''B'' ''b'', insight1 ''C'' ''c'',
            insight1 ''D'' ''d'', insight1 ''E'' ''e'']) () =
     Inr [insight1 ''A'' ''a'', insight1 ''B'' ''b'', insight1 ''C'' ''c'',
          insight1 ''D'' ''d'', insight1 ''E'' ''e''] \<and>
   map ProcessAfter (jobs (discoverAndEnqueueInsights example_packages (\<lambda>k. 1000)
     (Some [insight1 ''A'' ''a'', insight1 ''B'' ''b'', insight1 ''C'' ''c'',
            insight1 ''D'' ''d'', insight1 ''E'' ''e'']) () store_Enqueue [])) =
     [Some 1000, Some (1000 + 30000000000), Some (1000 + 60000000000),
      Some (1000 + 90000000000), Some (1000 + 120000000000)] \<and>
   ProcessAfter (jobs (discoverAndEnqueueInsights example_packages (\<lambda>k. 1000)
     (Some [insight1 ''A'' ''a'', insight1 ''B'' ''b'', insight1 ''C'' ''c'',
            insight1 ''D'' ''d'', insight1 ''E'' ''e'']) () store_Enqueue []) ! 4) =
     Some (1000 + int 4 * 30000000000)"
proof -
  let ?found = "[insight1 ''A'' ''a'', insight1 ''B'' ''b'', insight1 ''C'' ''c'',
    insight1 ''D'' ''d'', insight1 ''E'' ''e'']"
  let ?r = "discoverAndEnqueueInsights example_packages (\<lambda>k. 1000) (Some ?found) ()
    store_Enqueue []"
  have h1: "discovery_Discover example_packages (Some ?found) () = Inr ?found"
    by (simp add: example_packages_def read_settings_def)
  have all: "map ProcessAfter (jobs ?r) =
      [Some 1000, Some (1000 + 30000000000), Some (1000 + 60000000000),
       Some (1000 + 90000000000), Some (1000 + 120000000000)]"
    by (simp add: pass_eval)
  then have "length (map ProcessAfter (jobs ?r)) = 5" by simp
  then have h3: "4 < length (jobs ?r)" by simp
  have h4: "(4::nat) \<le> 307445734" by simp
  from process_after_offsets [OF h1 refl h3 h4]
  have "ProcessAfter (jobs ?r ! 4) = Some (1000 + int 4 * 30000000000)"
    by blast
  with h1 all show ?thesis by blast
qed

text \<open>
  C4. Within one pass, no two calls of \<open>enqueueQueryRunnerJob\<close> carry the same identity,
  whatever the store answers; and the series a call is made for is the first one in
  discovery order (over all insights) that has its identity.
\<close>

theorem intra_pass_dedup:
  assumes "discovery_Discover P settingStore loader = Inr found"
    and "r = discoverAndEnqueueInsights P now settingStore loader enqueueQueryRunnerJob st"
  shows "distinct (map SeriesID (jobs r)) \<and>
    (\<forall>i<length (jobs r). \<exists>k<length (all_series found).
       SeriesID (jobs r ! i) = discovery_Encode P (all_series found ! k) \<and>
       SearchQuery (jobs r ! i) = withCountUnlimited (Query (all_series found ! k)) \<and>
       (\<forall>k'<k. discovery_Encode P (all_series found ! k') \<noteq>
                discovery_Encode P (all_series found ! k)))"
proof -
  let ?enc = "discovery_Encode P"
  let ?U = "unique_series ?enc found"
  let ?n = "length (jobs r)"
  note pass = pass_jobs [OF assms refl]
  have ids: "map SeriesID (jobs r) = take ?n (map ?enc ?U)"
    using arg_cong [OF pass(1), of "map SeriesID"]
    by (simp only: jobs_from_SeriesID take_map)
  have "distinct (map ?enc ?U)"
    using first_seen_keys [of ?enc "[]" "all_series found"]
    by (simp add: unique_series_def)
  then have "distinct (take ?n (map ?enc ?U))"
    by (rule distinct_take)
  then have once: "distinct (map SeriesID (jobs r))"
    by (simp only: ids)
  have first: "\<exists>k<length (all_series found).
       SeriesID (jobs r ! i) = ?enc (all_series found ! k) \<and>
       SearchQuery (jobs r ! i) = withCountUnlimited (Query (all_series found ! k)) \<and>
       (\<forall>k'<k. ?enc (all_series found ! k') \<noteq> ?enc (all_series found ! k))"
    if i: "i < ?n" for i
  proof -
    have iU: "i < length ?U" using i pass(2) by simp
    have "jobs r ! i = jobs_from P now 0 0 (take ?n ?U) ! i"
      using pass(1) by simp
    also have "\<dots> = job_for P (time_Add (now (0 + i)) (0 + of_nat i * queryJobOffsetTime))
        (take ?n ?U ! i)"
      by (rule jobs_from_nth) (use i iU in simp)
    finally have job: "SeriesID (jobs r ! i) = ?enc (?U ! i)"
      "SearchQuery (jobs r ! i) = withCountUnlimited (Query (?U ! i))"
      using i by (simp_all add: job_for_def)
    have "i < length (first_seen ?enc [] (all_series found))"
      using iU by (simp add: unique_series_def)
    from first_seen_first [OF this]
    obtain k where k: "k < length (all_series found)" "all_series found ! k = ?U ! i"
      "\<forall>k'<k. ?enc (all_series found ! k') \<noteq> ?enc (all_series found ! k)"
      unfolding unique_series_def by (elim exE conjE)
    show ?thesis
    proof (intro exI conjI)
      show "k < length (all_series found)" by (rule k(1))
      show "SeriesID (jobs r ! i) = ?enc (all_series found ! k)"
        by (simp add: job(1) k(2))
      show "SearchQuery (jobs r ! i) = withCountUnlimited (Query (all_series found ! k))"
        by (simp add: job(2) k(2))
      show "\<forall>k'<k. ?enc (all_series found ! k') \<noteq> ?enc (all_series found ! k)"
        by (rule k(3))
    qed
  qed
  from once first show ?thesis by simp
qed

text \<open>
  The scenario of the spec: two insights with different titles, each with one series
  whose query is \<open>lang:go\<close>. One job is passed on, with the normalised query.
\<close>

theorem intra_pass_dedup_witness:
  "discovery_Discover example_packages
     (Some [insight1 ''A'' ''lang:go'', insight1 ''B'' ''lang:go'']) () =
     Inr [insight1 ''A'' ''lang:go'', insight1 ''B'' ''lang:go''] \<and>
   map (\<lambda>j. (SeriesID j, SearchQuery j))
     (jobs (discoverAndEnqueueInsights example_packages (\<lambda>k. 1000)
        (Some [insight1 ''A'' ''lang:go'', insight1 ''B'' ''lang:go'']) () store_Enqueue [])) =
     [(''s:lang:go'', ''lang:go count:9999999'')] \<and>
   distinct (map SeriesID
     (jobs (discoverAndEnqueueInsights example_packages (\<lambda>k. 1000)
        (Some [insight1 ''A'' ''lang:go'', insight1 ''B'' ''lang:go'']) () store_Enqueue [])))"
proof -
  let ?found = "[insight1 ''A'' ''lang:go'', insight1 ''B'' ''lang:go'']"
  let ?r = "discoverAndEnqueueInsights example_packages (\<lambda>k. 1000) (Some ?found) ()
    store_Enqueue []"
  have h: "discovery_Discover example_packages (Some ?found) () = Inr ?found"
    by (simp add: example_packages_def read_settings_def)
  have one: "map (\<lambda>j. (SeriesID j, SearchQuery j)) (jobs ?r) =
      [(''s:lang:go'', ''lang:go count:9999999'')]"
    by (simp add: pass_eval)
  from intra_pass_dedup [where r = ?r, OF h refl]
  have "distinct (map SeriesID (jobs ?r))" by (rule conjunct1)
  with h one show ?thesis by simp
qed

text \<open>
  C2, as amended. The identity of a series is \<open>discovery.Encode\<close> of the series as it was
  discovered; \<open>withCountUnlimited\<close> is applied to the query that is passed on, not to what
  the identity is computed from. The calls of a pass are for the unique series by that
  identity, in discovery order: call \<open>i\<close> carries the identity of the \<open>i\<close>-th unique series
  and its normalised query, and a pass that returns no error has made one call for each
  identity, also for two identities whose queries normalise to the same string.
\<close>

theorem identity_of_raw_series:
  assumes "discovery_Discover P settingStore loader = Inr found"
    and "r = discoverAndEnqueueInsights P now settingStore loader enqueueQueryRunnerJob st"
  shows "map (\<lambda>j. (SeriesID j, SearchQuery j)) (jobs r) =
      map (\<lambda>s. (discovery_Encode P s, withCountUnlimited (Query s)))
        (take (length (jobs r)) (unique_series (discovery_Encode P) found)) \<and>
    (returned r = None \<longrightarrow>
      length (jobs r) = length (unique_series (discovery_Encode P) found))"
proof -
  note pass = pass_jobs [OF assms refl]
  have "map (\<lambda>j. (SeriesID j, SearchQuery j)) (jobs r) =
      map (\<lambda>s. (discovery_Encode P s, withCountUnlimited (Query s)))
        (take (length (jobs r)) (unique_series (discovery_Encode P) found))"
    using arg_cong [OF pass(1), of "map (\<lambda>j. (SeriesID j, SearchQuery j))"]
    by (simp only: jobs_from_keys)
  with pass(3) show ?thesis by simp
qed

theorem identity_of_raw_series_witness:
  "discovery_Discover example_packages
     (Some [insight1 ''A'' ''lang:go'', insight1 ''B'' ''lang:go count:9999999'',
            insight1 ''C'' ''lang:go'']) () =
     Inr [insight1 ''A'' ''lang:go'', insight1 ''B'' ''lang:go count:9999999'',
          insight1 ''C'' ''lang:go''] \<and>
   returned (discoverAndEnqueueInsights example_packages (\<lambda>k. 1000)
     (Some [insight1 ''A'' ''lang:go'', insight1 ''B'' ''lang:go count:9999999'',
            insight1 ''C'' ''lang:go'']) () store_Enqueue []) = None \<and>
   unique_series content_identity
     [insight1 ''A'' ''lang:go'', insight1 ''B'' ''lang:go count:9999999'',
      insight1 ''C'' ''lang:go''] =
     [\<lparr>Name = ''A'', Query = ''lang:go''\<rparr>, \<lparr>Name = ''B'', Query = ''lang:go count:9999999''\<rparr>] \<and>
   length (jobs (discoverAndEnqueueInsights example_packages (\<lambda>k. 1000)
     (Some [insight1 ''A'' ''lang:go'', insight1 ''B'' ''lang:go count:9999999'',
            insight1 ''C'' ''lang:go'']) () store_Enqueue [])) = 2"
proof -
  let ?found = "[insight1 ''A'' ''lang:go'', insight1 ''B'' ''lang:go count:9999999'',
    insight1 ''C'' ''lang:go'']"
  let ?r = "discoverAndEnqueueInsights example_packages (\<lambda>k. 1000) (Some ?found) ()
    store_Enqueue []"
  have h: "discovery_Discover example_packages (Some ?found) () = Inr ?found"
    by (simp add: example_packages_def read_settings_def)
  have ok: "returned ?r = None"
    by (simp add: pass_eval)
  have enc: "discovery_Encode example_packages = content_identity"
    by (simp add: example_packages_def)
  have U: "unique_series content_identity ?found =
      [\<lparr>Name = ''A'', Query = ''lang:go''\<rparr>, \<lparr>Name = ''B'', Query = ''lang:go count:9999999''\<rparr>]"
    by (simp add: unique_series_def all_series_def insight1_def content_identity_def)
  from identity_of_raw_series [where r = ?r, OF h refl] ok
  have "length (jobs ?r) = length (unique_series content_identity ?found)"
    unfolding enc by (elim conjE) simp
  with h ok U show ?thesis by simp
qed

text \<open>
  C2 as stated fails on two series whose queries differ and normalise to the same
  string: their identities differ, and both are passed on, with the same query.
\<close>

theorem identity_before_normalisation_counterexample:
  "withCountUnlimited ''lang:go'' = withCountUnlimited ''lang:go count:9999999'' \<and>
   map (\<lambda>j. (SeriesID j, SearchQuery j))
     (jobs (discoverAndEnqueueInsights example_packages (\<lambda>k. 1000)
        (Some [insight1 ''A'' ''lang:go'', insight1 ''B'' ''lang:go count:9999999'']) ()
        store_Enqueue [])) =
     [(''s:lang:go'', ''lang:go count:9999999''),
      (''s:lang:go count:9999999'', ''lang:go count:9999999'')]"
  by (simp add: pass_eval)

text \<open>
  C1, as amended. During one pass, every error a call of \<open>enqueueQueryRunnerJob\<close> returns
  is listed in the error the pass returns, a \<open>DuplicateError\<close> of the store as any other;
  the pass returns no error exactly when no call failed.
\<close>

theorem emission_failures_listed:
  assumes "discovery_Discover P settingStore loader = Inr found"
    and "r = discoverAndEnqueueInsights P now settingStore loader enqueueQueryRunnerJob st"
  shows "(\<forall>j e. (j, Some e) \<in> set (enqueue_calls r) \<longrightarrow>
        set (flatten_error e) \<subseteq> set (listed (returned r))) \<and>
    (\<forall>j. (j, Some DuplicateError) \<in> set (enqueue_calls r) \<longrightarrow>
        DuplicateError \<in> set (listed (returned r))) \<and>
    (returned r = None \<longleftrightarrow> (\<forall>j x. (j, x) \<in> set (enqueue_calls r) \<longrightarrow> x = None))"
proof -
  note pass = pass_errors [OF assms]
  have all: "\<forall>j e. (j, Some e) \<in> set (enqueue_calls r) \<longrightarrow>
      set (flatten_error e) \<subseteq> set (listed (returned r))"
    using pass(1) by blast
  have dup: "\<forall>j. (j, Some DuplicateError) \<in> set (enqueue_calls r) \<longrightarrow>
      DuplicateError \<in> set (listed (returned r))"
  proof (intro allI impI)
    fix j
    assume "(j, Some DuplicateError) \<in> set (enqueue_calls r)"
    then have "set (flatten_error DuplicateError) \<subseteq> set (listed (returned r))"
      by (rule pass(1))
    then show "DuplicateError \<in> set (listed (returned r))" by simp
  qed
  from all dup pass(2) show ?thesis by blast
qed

text \<open>
  A store that already holds the record of \<open>lang:go\<close>: the call for the series is refused
  as a duplicate, and the pass returns that error.
\<close>

theorem emission_failures_listed_witness:
  "discovery_Discover example_packages (Some [insight1 ''A'' ''lang:go'']) () =
     Inr [insight1 ''A'' ''lang:go''] \<and>
   map snd (enqueue_calls (discoverAndEnqueueInsights example_packages (\<lambda>k. 1000)
     (Some [insight1 ''A'' ''lang:go'']) () store_Enqueue
     [job_for example_packages 0 \<lparr>Name = ''Z'', Query = ''lang:go''\<rparr>])) =
     [Some DuplicateError] \<and>
   DuplicateError \<in> set (listed (returned (discoverAndEnqueueInsights example_packages
     (\<lambda>k. 1000) (Some [insight1 ''A'' ''lang:go'']) () store_Enqueue
     [job_for example_packages 0 \<lparr>Name = ''Z'', Query = ''lang:go''\<rparr>])))"
proof -
  let ?found = "[insight1 ''A'' ''lang:go'']"
  let ?st = "[job_for example_packages 0 \<lparr>Name = ''Z'', Query = ''lang:go''\<rparr>]"
  let ?r = "discoverAndEnqueueInsights example_packages (\<lambda>k. 1000) (Some ?found) ()
    store_Enqueue ?st"
  have h: "discovery_Discover example_packages (Some ?found) () = Inr ?found"
    by (simp add: example_packages_def read_settings_def)
  have calls: "map snd (enqueue_calls ?r) = [Some DuplicateError]"
    by (simp add: pass_eval job_for_def)
  then obtain j where "enqueue_calls ?r = [(j, Some DuplicateError)]"
    by (cases "enqueue_calls ?r") auto
  then have "(j, Some DuplicateError) \<in> set (enqueue_calls ?r)" by simp
  with emission_failures_listed [where r = ?r, OF h refl]
  have "DuplicateError \<in> set (listed (returned ?r))" by blast
  with h calls show ?thesis by simp
qed

text \<open>
  C1 as stated fails on two passes over the same definitions: the store refuses the
  record of the second pass as a duplicate, and the second pass returns an error that
  lists the \<open>DuplicateError\<close>.
\<close>

theorem duplicate_error_returned_counterexample:
  "returned (discoverAndEnqueueInsights example_packages (\<lambda>k. 2000)
     (Some [insight1 ''A'' ''lang:go'']) () store_Enqueue
     (store (discoverAndEnqueueInsights example_packages (\<lambda>k. 1000)
        (Some [insight1 ''A'' ''lang:go'']) () store_Enqueue []))) =
   Some (MultiError [DuplicateError])"
  by (simp add: pass_eval)

text \<open>
  C5 on the code. Two unique series, and a store that refuses the first: the claim has a
  call for each, the second one stored, and one failure listed. The pass makes one call,
  stores nothing, and lists the failure of the first series twice: \<open>err\<close> still holds it
  when the second series is reached, and the check of \<open>err\<close> at the head of the loop
  skips that series.
\<close>

theorem failed_emission_stops_pass:
  "unique_series content_identity [insight1 ''A'' ''a'', insight1 ''B'' ''b''] =
     [\<lparr>Name = ''A'', Query = ''a''\<rparr>, \<lparr>Name = ''B'', Query = ''b''\<rparr>] \<and>
   discoverAndEnqueueInsights example_packages (\<lambda>k. 1000)
     (Some [insight1 ''A'' ''a'', insight1 ''B'' ''b'']) () (store_rejecting ''s:a'') [] =
     \<lparr>store = [],
      enqueue_calls =
        [(job_for example_packages 1000 \<lparr>Name = ''A'', Query = ''a''\<rparr>,
          Some (ErrorString ''insert failed''))],
      returned = Some (MultiError [ErrorString ''insert failed'', ErrorString ''insert failed''])\<rparr>"
  by (simp add: pass_eval job_for_def unique_series_def all_series_def)

section \<open>Claims on the backlog gauges\<close>

lemma bit_length_0: "bit_length 0 = 0"
  by (subst bit_length.simps) simp

lemma bit_length_pos: "0 < n \<Longrightarrow> bit_length n = Suc (bit_length (n div 2))"
  by (subst bit_length.simps) simp

lemma bit_length_le: "n < 2 ^ k \<Longrightarrow> bit_length n \<le> k"
proof (induction k arbitrary: n)
  case 0
  then show ?case by (simp add: bit_length_0)
next
  case (Suc k)
  show ?case
  proof (cases "n = 0")
    case True
    then show ?thesis by (simp add: bit_length_0)
  next
    case False
    from Suc.prems have "n div 2 < 2 ^ k" by simp
    then have "bit_length (n div 2) \<le> k" by (rule Suc.IH)
    with False show ?thesis by (simp add: bit_length_pos)
  qed
qed

lemma float64_exact:
  assumes "\<bar>n\<bar> < 2 ^ 53"
  shows "float64 n = of_int n"
proof -
  have "nat \<bar>n\<bar> < 2 ^ 53"
    using assms by (simp add: nat_less_iff)
  then have "bit_length (nat \<bar>n\<bar>) - 53 = 0"
    using bit_length_le [of "nat \<bar>n\<bar>" 53] by simp
  then have "float64 n = of_int (sgn n * int (nat \<bar>n\<bar>))"
    by (simp add: float64_def Let_def)
  also have "sgn n * int (nat \<bar>n\<bar>) = n"
    by (simp add: sgn_mult_abs)
  finally show ?thesis .
qed

lemma register_gauges_append:
  assumes "distinct (map fst qs)"
    and "\<forall>h\<in>set reg. GaugeName h = ''src_executor_total'' \<longrightarrow>
           Help h = ''Total number of jobs in the queued state.'' \<and>
           (\<exists>q. ConstLabels h = [(''queue'', q)] \<and> q \<notin> set (map fst qs))"
  shows "register_gauges qs reg =
    Inr (reg @ map (\<lambda>(queueName, options). backlog_gauge queueName (Store options)) qs)"
  using assms
proof (induction qs arbitrary: reg)
  case Nil
  then show ?case by simp
next
  case (Cons entry qs)
  obtain queueName options where entry: "entry = (queueName, options)"
    by (cases entry)
  let ?g = "backlog_gauge queueName (Store options)"
  have fresh: "\<not> (\<exists>h\<in>set reg. GaugeName h = GaugeName ?g \<and> ConstLabels h = ConstLabels ?g)"
    using Cons.prems(2) by (auto simp: backlog_gauge_def entry)
  have agree: "\<not> (\<exists>h\<in>set reg. GaugeName h = GaugeName ?g \<and>
      (Help h \<noteq> Help ?g \<or> map fst (ConstLabels h) \<noteq> map fst (ConstLabels ?g)))"
    using Cons.prems(2) by (auto simp: backlog_gauge_def entry)
  have reg: "prometheus_MustRegister ?g reg = Inr (reg @ [?g])"
    using fresh agree unfolding prometheus_MustRegister_def by (simp only: if_False)
  have "distinct (map fst qs)"
    using Cons.prems(1) by simp
  moreover have "\<forall>h\<in>set (reg @ [?g]). GaugeName h = ''src_executor_total'' \<longrightarrow>
           Help h = ''Total number of jobs in the queued state.'' \<and>
           (\<exists>q. ConstLabels h = [(''queue'', q)] \<and> q \<notin> set (map fst qs))"
    using Cons.prems by (auto simp: backlog_gauge_def entry)
  ultimately have "register_gauges qs (reg @ [?g]) =
      Inr ((reg @ [?g]) @ map (\<lambda>(queueName, options). backlog_gauge queueName (Store options)) qs)"
    by (rule Cons.IH)
  then show ?case
    by (simp add: entry reg)
qed

lemma one_gauge_per_queue:
  assumes "distinct (map fst qs)" and "(queueName, options) \<in> set qs"
  shows "filter (\<lambda>g. ConstLabels g = [(''queue'', queueName)])
      (map (\<lambda>(queueName, options). backlog_gauge queueName (Store options)) qs) =
    [backlog_gauge queueName (Store options)]"
  using assms
proof (induction qs)
  case Nil
  then show ?case by simp
next
  case (Cons entry qs)
  obtain q' o' where entry: "entry = (q', o')" by (cases entry)
  show ?case
  proof (cases "q' = queueName")
    case True
    with Cons.prems entry have "o' = options"
      by (auto simp: image_iff)
    have "queueName \<notin> fst ` set qs"
      using Cons.prems(1) entry True by simp
    then have "filter (\<lambda>g. ConstLabels g = [(''queue'', queueName)])
        (map (\<lambda>(queueName, options). backlog_gauge queueName (Store options)) qs) = []"
      by (auto simp: filter_empty_conv backlog_gauge_def image_iff)
    then show ?thesis
      using True \<open>o' = options\<close> by (simp add: entry backlog_gauge_def)
  next
    case False
    with Cons.prems entry have "(queueName, options) \<in> set qs" by auto
    moreover have "distinct (map fst qs)" using Cons.prems(1) by simp
    ultimately show ?thesis
      using Cons.IH False by (simp add: entry backlog_gauge_def)
  qed
qed


text \<open>Above \<open>2 ^ 53\<close> the conversion rounds: to the even significand on a tie.\<close>

lemma float64_rounds:
  "float64 9007199254740993 = 9007199254740992"
  "float64 (-9007199254740995) = - 9007199254740996"
  "float64 9223372036854775807 = 9223372036854775808"
  by (simp_all add: float64_def Let_def bit_length_0 bit_length_pos)

lemma sample_backlog_gauge:
  "fst (sample (backlog_gauge queueName st) db logs) = float64 (sint (fst (QueuedCount st db)))"
  by (simp add: backlog_gauge_def queued_count_gauge_def Let_def split: prod.splits)

text \<open>
  C8. The loop of \<open>main\<close> registers, for every configured queue name, exactly one gauge
  \<open>src_executor_total\<close> labelled with that queue name (and no other gauge of that name),
  given that none is registered before. Sampling the gauge calls \<open>QueuedCount\<close> of that
  queue's store on the database of that moment and returns the count as a \<open>float64\<close>,
  which is the count itself below \<open>2 ^ 53\<close>.
\<close>

theorem one_backlog_gauge_per_queue:
  assumes "distinct (map fst qs)"
    and "\<forall>h\<in>set reg. GaugeName h \<noteq> ''src_executor_total''"
  shows "\<exists>reg'. register_gauges qs reg = Inr reg' \<and>
    length (filter (\<lambda>g. GaugeName g = ''src_executor_total'') reg') = length qs \<and>
    (\<forall>(queueName, options)\<in>set qs.
       filter (\<lambda>g. GaugeName g = ''src_executor_total'' \<and>
                    ConstLabels g = [(''queue'', queueName)]) reg' =
         [backlog_gauge queueName (Store options)] \<and>
       (\<forall>db logs.
          fst (sample (backlog_gauge queueName (Store options)) db logs) =
            float64 (sint (fst (QueuedCount (Store options) db))) \<and>
          (\<bar>sint (fst (QueuedCount (Store options) db))\<bar> < 2 ^ 53 \<longrightarrow>
             fst (sample (backlog_gauge queueName (Store options)) db logs) =
               of_int (sint (fst (QueuedCount (Store options) db))))))"
proof -
  let ?added = "map (\<lambda>(queueName, options). backlog_gauge queueName (Store options)) qs"
  let ?named = "\<lambda>g::'a GaugeFunc. GaugeName g = ''src_executor_total''"
  have none: "filter ?named reg = []"
    using assms(2) by (simp add: filter_empty_conv)
  have all: "filter ?named ?added = ?added"
    by (rule filter_True) (auto simp: backlog_gauge_def)
  have "\<forall>h\<in>set reg. GaugeName h = ''src_executor_total'' \<longrightarrow>
           Help h = ''Total number of jobs in the queued state.'' \<and>
           (\<exists>q. ConstLabels h = [(''queue'', q)] \<and> q \<notin> set (map fst qs))"
    using assms(2) by blast
  with assms(1) have reg: "register_gauges qs (reg) = Inr (reg @ ?added)"
    by (rule register_gauges_append)
  have count: "length (filter ?named (reg @ ?added)) = length qs"
    by (simp add: none all)
  have each: "filter (\<lambda>g. GaugeName g = ''src_executor_total'' \<and>
                    ConstLabels g = [(''queue'', queueName)]) (reg @ ?added) =
         [backlog_gauge queueName (Store options)]"
    if "(queueName, options) \<in> set qs" for queueName options
  proof -
    have "filter (\<lambda>g. GaugeName g = ''src_executor_total'' \<and>
                    ConstLabels g = [(''queue'', queueName)]) (reg @ ?added) =
        filter (\<lambda>g. ConstLabels g = [(''queue'', queueName)]) (filter ?named (reg @ ?added))"
      by (simp add: conj_commute)
    also have "\<dots> = filter (\<lambda>g. ConstLabels g = [(''queue'', queueName)]) ?added"
      by (simp only: filter_append none all append_Nil)
    also have "\<dots> = [backlog_gauge queueName (Store options)]"
      using assms(1) that by (rule one_gauge_per_queue)
    finally show ?thesis .
  qed
  have pull: "fst (sample (backlog_gauge queueName (Store options)) db logs) =
            float64 (sint (fst (QueuedCount (Store options) db))) \<and>
          (\<bar>sint (fst (QueuedCount (Store options) db))\<bar> < 2 ^ 53 \<longrightarrow>
             fst (sample (backlog_gauge queueName (Store options)) db logs) =
               of_int (sint (fst (QueuedCount (Store options) db))))"
    for queueName and options :: "'a QueueOptions" and db logs
    by (simp add: sample_backlog_gauge float64_exact)
  show ?thesis
  proof (intro exI conjI)
    show "register_gauges qs reg = Inr (reg @ ?added)" by (rule reg)
    show "length (filter ?named (reg @ ?added)) = length qs" by (rule count)
    show "\<forall>(queueName, options)\<in>set qs.
       filter (\<lambda>g. GaugeName g = ''src_executor_total'' \<and>
                    ConstLabels g = [(''queue'', queueName)]) (reg @ ?added) =
         [backlog_gauge queueName (Store options)] \<and>
       (\<forall>db logs.
          fst (sample (backlog_gauge queueName (Store options)) db logs) =
            float64 (sint (fst (QueuedCount (Store options) db))) \<and>
          (\<bar>sint (fst (QueuedCount (Store options) db))\<bar> < 2 ^ 53 \<longrightarrow>
             fst (sample (backlog_gauge queueName (Store options)) db logs) =
               of_int (sint (fst (QueuedCount (Store options) db)))))"
    proof (clarify, intro conjI allI)
      fix queueName :: string and options :: "'a QueueOptions"
      assume "(queueName, options) \<in> set qs"
      then show "filter (\<lambda>g. GaugeName g = ''src_executor_total'' \<and>
                    ConstLabels g = [(''queue'', queueName)]) (reg @ ?added) =
         [backlog_gauge queueName (Store options)]"
        by (rule each)
    next
      fix queueName :: string and options :: "'a QueueOptions" and db logs
      show "fst (sample (backlog_gauge queueName (Store options)) db logs) =
            float64 (sint (fst (QueuedCount (Store options) db)))"
        using pull by blast
    next
      fix queueName :: string and options :: "'a QueueOptions" and db logs
      show "\<bar>sint (fst (QueuedCount (Store options) db))\<bar> < 2 ^ 53 \<longrightarrow>
             fst (sample (backlog_gauge queueName (Store options)) db logs) =
               of_int (sint (fst (QueuedCount (Store options) db)))"
        using pull by blast
    qed
  qed
qed


theorem one_backlog_gauge_per_queue_witness:
  "distinct (map fst (queueOptions \<lparr>Store = counting_store\<rparr> \<lparr>Store = failing_store\<rparr>)) \<and>
   register_gauges (queueOptions \<lparr>Store = counting_store\<rparr> \<lparr>Store = failing_store\<rparr>) [] =
     Inr [backlog_gauge ''codeintel'' counting_store, backlog_gauge ''batches'' failing_store] \<and>
   filter (\<lambda>g. GaugeName g = ''src_executor_total'' \<and> ConstLabels g = [(''queue'', ''codeintel'')])
     [backlog_gauge ''codeintel'' counting_store, backlog_gauge ''batches'' failing_store] =
     [backlog_gauge ''codeintel'' counting_store] \<and>
   fst (sample (backlog_gauge ''codeintel'' counting_store) (7, 2) []) = 7"
proof -
  let ?qs = "queueOptions \<lparr>Store = counting_store\<rparr> \<lparr>Store = failing_store\<rparr>"
  let ?g1 = "backlog_gauge ''codeintel'' counting_store"
  let ?g2 = "backlog_gauge ''batches'' failing_store"
  have h1: "distinct (map fst ?qs)"
    by (simp add: queueOptions_def)
  have h2: "\<forall>h\<in>set ([] :: (nat \<times> nat) GaugeFunc list). GaugeName h \<noteq> ''src_executor_total''"
    by simp
  have run: "register_gauges ?qs [] = Inr [?g1, ?g2]"
    by (simp add: queueOptions_def prometheus_MustRegister_def backlog_gauge_def)
  have mem: "(''codeintel'', \<lparr>Store = counting_store\<rparr>) \<in> set ?qs"
    by (simp add: queueOptions_def)
  from one_backlog_gauge_per_queue [OF h1 h2] obtain reg' where
    reg': "register_gauges ?qs [] = Inr reg'"
    and each: "\<forall>(queueName, options)\<in>set ?qs.
       filter (\<lambda>g. GaugeName g = ''src_executor_total'' \<and>
                    ConstLabels g = [(''queue'', queueName)]) reg' =
         [backlog_gauge queueName (Store options)] \<and>
       (\<forall>db logs.
          fst (sample (backlog_gauge queueName (Store options)) db logs) =
            float64 (sint (fst (QueuedCount (Store options) db))) \<and>
          (\<bar>sint (fst (QueuedCount (Store options) db))\<bar> < 2 ^ 53 \<longrightarrow>
             fst (sample (backlog_gauge queueName (Store options)) db logs) =
               of_int (sint (fst (QueuedCount (Store options) db)))))"
    by (elim exE conjE)
  from reg' run have eq: "reg' = [?g1, ?g2]" by simp
  from each mem have one: "filter (\<lambda>g. GaugeName g = ''src_executor_total'' \<and>
       ConstLabels g = [(''queue'', ''codeintel'')]) reg' = [?g1]"
    and exact: "\<bar>sint (fst (QueuedCount counting_store (7, 2)))\<bar> < 2 ^ 53 \<longrightarrow>
       fst (sample ?g1 (7, 2) []) = of_int (sint (fst (QueuedCount counting_store (7, 2))))"
    by fastforce+
  have "sint (fst (QueuedCount counting_store (7, 2))) = 7"
    by (simp add: counting_store_def)
  with exact have "fst (sample ?g1 (7, 2) []) = 7" by simp
  with h1 run one eq show ?thesis by simp
qed

lemma float64_zero: "float64 0 = 0"
  using float64_exact [of 0] by simp

text \<open>
  C10. The function of the gauge has no way to fail: when \<open>QueuedCount\<close> returns an
  error, it logs the error and returns the \<open>float64\<close> of the count that came with the
  error, which is 0 for the zero count a failed call returns.
\<close>

theorem gauge_survives_store_failure:
  assumes "QueuedCount st db = (count, Some e)"
  shows "queued_count_gauge queueName st db logs =
      (float64 (sint count),
       logs @ [(''error'', ''Failed to get queued job count'',
                [(''queue'', LogString queueName), (''error'', LogError e)])]) \<and>
    (count = 0 \<longrightarrow> fst (queued_count_gauge queueName st db logs) = 0)"
proof -
  have run: "queued_count_gauge queueName st db logs =
      (float64 (sint count),
       logs @ [(''error'', ''Failed to get queued job count'',
                [(''queue'', LogString queueName), (''error'', LogError e)])])"
    using assms by (simp add: queued_count_gauge_def log15_Error_def)
  from run show ?thesis by (simp add: float64_zero)
qed

theorem gauge_survives_store_failure_witness:
  "QueuedCount failing_store (7, 2) = (0, Some (ErrorString ''connection refused'')) \<and>
   queued_count_gauge ''batches'' failing_store (7, 2) [] =
     (0, [(''error'', ''Failed to get queued job count'',
           [(''queue'', LogString ''batches''),
            (''error'', LogError (ErrorString ''connection refused''))])])"
proof -
  have h: "QueuedCount failing_store (7, 2) = (0, Some (ErrorString ''connection refused''))"
    by (simp add: failing_store_def)
  from gauge_survives_store_failure [OF h, of "''batches''" "[]"]
  show ?thesis using h by (simp add: float64_zero)
qed

end
